theory Spec2Isabelle
  imports Complex_Main
begin

section \<open>Strings\<close>

text \<open>
  A Python \<open>str\<close> is a sequence of Unicode code points. The validation patterns of
  \<open>phone_directory.py\<close> name Cyrillic ranges, which lie beyond one byte, so a string is
  modelled as the list of its code points. \<open>ustr\<close> reads an ASCII literal.
\<close>

type_synonym ustring = "nat list"

definition ustr :: "string \<Rightarrow> ustring" where
  "ustr s = map of_char s"

text \<open>\<open>needle in haystack\<close> on strings: the needle occurs as a contiguous run.\<close>

fun starts_with :: "ustring \<Rightarrow> ustring \<Rightarrow> bool" where
  "starts_with [] s = True"
| "starts_with (p # ps) [] = False"
| "starts_with (p # ps) (c # cs) = (p = c \<and> starts_with ps cs)"

fun str_contains :: "ustring \<Rightarrow> ustring \<Rightarrow> bool" where
  "str_contains needle [] = (needle = [])"
| "str_contains needle (c # cs) = (starts_with needle (c # cs) \<or> str_contains needle cs)"

text \<open>
  \<open>s.split(sep)\<close> for a separator of one character: the pieces between the
  occurrences of the separator, always at least one piece.
\<close>

fun split_on :: "nat \<Rightarrow> ustring \<Rightarrow> ustring list" where
  "split_on sep [] = [[]]"
| "split_on sep (c # cs) =
     (if c = sep then [] # split_on sep cs
      else (case split_on sep cs of
              [] \<Rightarrow> [[c]]
            | p # ps \<Rightarrow> (c # p) # ps))"

text \<open>
  \<open>str.lower\<close> is Python's Unicode lower-casing, a built-in that is not part of the
  repository. The functions that call it take it as the parameter \<open>lower\<close>.
  \<open>lower_basic\<close> is its restriction to the two alphabets the validators accept (Basic
  Latin, and the Cyrillic block U+0400 to U+042F); it instantiates the parameter at
  concrete inputs.
\<close>

definition lower_cp :: "nat \<Rightarrow> nat" where
  "lower_cp c =
     (if 65 \<le> c \<and> c \<le> 90 then c + 32
      else if 1040 \<le> c \<and> c \<le> 1071 then c + 32
      else if 1024 \<le> c \<and> c \<le> 1039 then c + 80
      else c)"

definition lower_basic :: "ustring \<Rightarrow> ustring" where
  "lower_basic s = map lower_cp s"

section \<open>Regular expressions of the validators\<close>

text \<open>
  A pattern is run as a backtracking matcher: applied to the input at the current
  position it returns the rest of the input after every way the pattern can match there.
  \<open>re.match\<close> tries position 0 only and succeeds when some way exists.
\<close>

type_synonym matcher = "ustring \<Rightarrow> ustring list"

definition one_of :: "(nat \<Rightarrow> bool) \<Rightarrow> matcher" where
  "one_of P s = (case s of [] \<Rightarrow> [] | c # cs \<Rightarrow> if P c then [cs] else [])"

definition optional :: "matcher \<Rightarrow> matcher" where
  "optional m s = m s @ [s]"

definition then_match :: "matcher \<Rightarrow> matcher \<Rightarrow> matcher" where
  "then_match m1 m2 s = concat (map m2 (m1 s))"

fun one_or_more :: "(nat \<Rightarrow> bool) \<Rightarrow> matcher" where
  "one_or_more P [] = []"
| "one_or_more P (c # cs) = (if P c then one_or_more P cs @ [cs] else [])"

text \<open>\<open>X{n}\<close> for a character class.\<close>

primrec times :: "nat \<Rightarrow> (nat \<Rightarrow> bool) \<Rightarrow> matcher" where
  "times 0 P s = [s]"
| "times (Suc n) P s = concat (map (times n P) (one_of P s))"

text \<open>\<open>X{lo,hi}\<close>, the longest repetition tried first.\<close>

definition between :: "nat \<Rightarrow> nat \<Rightarrow> (nat \<Rightarrow> bool) \<Rightarrow> matcher" where
  "between lo hi P s = concat (map (\<lambda>k. times k P s) (rev [lo..<Suc hi]))"

text \<open>\<open>$\<close> without \<open>re.MULTILINE\<close>: the end of the string, or just before a final newline.\<close>

definition end_anchor :: matcher where
  "end_anchor s = (if s = [] \<or> s = [10] then [s] else [])"

fun sequence :: "matcher list \<Rightarrow> matcher" where
  "sequence [] s = [s]"
| "sequence (m # ms) s = then_match m (sequence ms) s"

definition re_match :: "matcher \<Rightarrow> ustring \<Rightarrow> bool" where
  "re_match pattern s = (pattern s \<noteq> [])"

text \<open>
  The character classes. \<open>\s\<close> in a \<open>str\<close> pattern is Unicode white space;
  \<open>[0-9]\<close>, \<open>[a-zA-Z]\<close> and the Cyrillic ranges are plain code point ranges
  (\<open>A-YA\<close> is U+0410 to U+042F, \<open>a-ya\<close> is U+0430 to U+044F).
\<close>

definition is_space :: "nat \<Rightarrow> bool" where
  "is_space c =
     ((9 \<le> c \<and> c \<le> 13) \<or> (28 \<le> c \<and> c \<le> 32) \<or> c = 133 \<or> c = 160 \<or> c = 5760
      \<or> (8192 \<le> c \<and> c \<le> 8202) \<or> c = 8232 \<or> c = 8233 \<or> c = 8239 \<or> c = 8287
      \<or> c = 12288)"

definition is_digit :: "nat \<Rightarrow> bool" where
  "is_digit c = (48 \<le> c \<and> c \<le> 57)"

definition is_name_char :: "nat \<Rightarrow> bool" where
  "is_name_char c =
     ((97 \<le> c \<and> c \<le> 122) \<or> (65 \<le> c \<and> c \<le> 90) \<or> (1072 \<le> c \<and> c \<le> 1103)
      \<or> (1040 \<le> c \<and> c \<le> 1071) \<or> is_space c)"

definition is_separator :: "nat \<Rightarrow> bool" where
  "is_separator c = (c = 45 \<or> is_space c \<or> c = 46)"

text \<open>\<^verbatim>\<open>^[a-zA-Z<a-ya><A-YA>\s]+(?:-[a-zA-Z<a-ya><A-YA>\s]+)?$\<close>\<close>

definition name_pattern :: matcher where
  "name_pattern =
     sequence [one_or_more is_name_char,
               optional (sequence [one_of (\<lambda>c. c = 45), one_or_more is_name_char]),
               end_anchor]"

text \<open>\<^verbatim>\<open>^[\+]?[(]?[0-9]{3}[)]?[-\s\.]?[0-9]{3}[-\s\.]?[0-9]{4,6}$\<close>\<close>

definition phone_pattern :: matcher where
  "phone_pattern =
     sequence [optional (one_of (\<lambda>c. c = 43)),
               optional (one_of (\<lambda>c. c = 40)),
               times 3 is_digit,
               optional (one_of (\<lambda>c. c = 41)),
               optional (one_of is_separator),
               times 3 is_digit,
               optional (one_of is_separator),
               between 4 6 is_digit,
               end_anchor]"

section \<open>Record and its validators\<close>

record Record =
  last_name :: ustring
  first_name :: ustring
  middle_name :: ustring
  organization :: ustring
  work_phone :: ustring
  personal_phone :: ustring

text \<open>The two messages a field validator raises as \<open>PydanticCustomError\<close>, and the
  errors of pydantic's own argument validation.\<close>

datatype field_error =
  Invalid_data_please_enter_a_valid_data
  | Invalid_phone_number
  | Missing_argument
  | Not_a_string

datatype pyerror =
  ValidationError "(ustring \<times> field_error) list"
  | ValueError
  | TypeError
  | AttributeError
  | ZeroDivisionError
  | OverflowError

definition validate_string_fields :: "ustring \<Rightarrow> field_error + ustring" where
  "validate_string_fields v =
     (if \<not> re_match name_pattern v then Inl Invalid_data_please_enter_a_valid_data
      else Inr v)"

definition validate_phone :: "ustring \<Rightarrow> field_error + ustring" where
  "validate_phone v =
     (if \<not> re_match phone_pattern v then Inl Invalid_phone_number else Inr v)"

text \<open>
  A JSON value, as \<open>json.load\<close> returns it. Of a number only that it is one matters
  here. An object keeps one value per key.
\<close>

datatype json =
  JNull
  | JBool bool
  | JNumber int
  | JString ustring
  | JArray "json list"
  | JObject "(ustring \<times> json) list"

definition field_names :: "ustring list" where
  "field_names =
     [ustr ''last_name'', ustr ''first_name'', ustr ''middle_name'', ustr ''organization'',
      ustr ''work_phone'', ustr ''personal_phone'']"

definition validator_of :: "ustring \<Rightarrow> ustring \<Rightarrow> field_error + ustring" where
  "validator_of name =
     (if name = ustr ''work_phone'' \<or> name = ustr ''personal_phone'' then validate_phone
      else validate_string_fields)"

definition validate_argument :: "(ustring \<times> json) list \<Rightarrow> ustring \<Rightarrow> field_error + ustring" where
  "validate_argument kwargs name =
     (case map_of kwargs name of
        None \<Rightarrow> Inl Missing_argument
      | Some (JString v) \<Rightarrow> validator_of name v
      | Some _ \<Rightarrow> Inl Not_a_string)"

definition argument_errors :: "(ustring \<times> json) list \<Rightarrow> (ustring \<times> field_error) list" where
  "argument_errors kwargs =
     concat (map (\<lambda>name. case validate_argument kwargs name of
                            Inl e \<Rightarrow> [(name, e)]
                          | Inr v \<Rightarrow> [])
                 field_names)"

definition argument_value :: "(ustring \<times> json) list \<Rightarrow> ustring \<Rightarrow> ustring" where
  "argument_value kwargs name =
     (case validate_argument kwargs name of Inr v \<Rightarrow> v | Inl e \<Rightarrow> [])"

text \<open>
  \<open>Record(**kwargs)\<close>. \<open>Record\<close> is a pydantic dataclass: pydantic gives it the
  initialiser \<open>__init__(__dataclass_self__, *args, **kwargs)\<close>, so a keyword named
  \<open>__dataclass_self__\<close> collides with the first parameter and the call raises
  \<open>TypeError\<close> before anything is validated. Otherwise every field's validator runs, in
  declaration order, and one \<open>ValidationError\<close> lists every field that failed. A keyword
  argument reaches its validator only when it is present and a \<open>str\<close>; a keyword that
  names no field is ignored.
\<close>

definition Record_init :: "(ustring \<times> json) list \<Rightarrow> pyerror + Record" where
  "Record_init kwargs =
     (if map_of kwargs (ustr ''__dataclass_self__'') \<noteq> None then Inl TypeError
      else
        (case argument_errors kwargs of
           [] \<Rightarrow>
             Inr \<lparr>last_name = argument_value kwargs (ustr ''last_name''),
                  first_name = argument_value kwargs (ustr ''first_name''),
                  middle_name = argument_value kwargs (ustr ''middle_name''),
                  organization = argument_value kwargs (ustr ''organization''),
                  work_phone = argument_value kwargs (ustr ''work_phone''),
                  personal_phone = argument_value kwargs (ustr ''personal_phone'')\<rparr>
         | e # es \<Rightarrow> Inl (ValidationError (e # es))))"

text \<open>\<open>dataclasses.asdict(record)\<close>: the six fields in declaration order.\<close>

definition asdict :: "Record \<Rightarrow> (ustring \<times> ustring) list" where
  "asdict r =
     [(ustr ''last_name'', last_name r), (ustr ''first_name'', first_name r),
      (ustr ''middle_name'', middle_name r), (ustr ''organization'', organization r),
      (ustr ''work_phone'', work_phone r), (ustr ''personal_phone'', personal_phone r)]"

text \<open>
  \<open>setattr(record, name, value)\<close> for the name of a field. The dataclass is declared
  without \<open>validate_assignment\<close>, so pydantic installs no \<open>__setattr__\<close> and the
  assignment is a plain attribute store: no validator runs.
\<close>

definition setattr_Record :: "Record \<Rightarrow> ustring \<Rightarrow> ustring \<Rightarrow> Record" where
  "setattr_Record r name v =
     (if name = ustr ''last_name'' then r\<lparr>last_name := v\<rparr>
      else if name = ustr ''first_name'' then r\<lparr>first_name := v\<rparr>
      else if name = ustr ''middle_name'' then r\<lparr>middle_name := v\<rparr>
      else if name = ustr ''organization'' then r\<lparr>organization := v\<rparr>
      else if name = ustr ''work_phone'' then r\<lparr>work_phone := v\<rparr>
      else if name = ustr ''personal_phone'' then r\<lparr>personal_phone := v\<rparr>
      else r)"

text \<open>
  \<open>hasattr(record, name)\<close> and \<open>getattr(record, name)\<close>. A record answers to its six
  fields and to whatever its class provides (methods, the docstring, the attributes of
  every Python object). The class part is the parameter \<open>cls\<close>: it maps a name to the
  attribute's value, a string or an object of another type.
\<close>

datatype pyvalue = Str ustring | Object

type_synonym class_attrs = "ustring \<Rightarrow> pyvalue option"

definition getattr_Record :: "class_attrs \<Rightarrow> Record \<Rightarrow> ustring \<Rightarrow> pyvalue option" where
  "getattr_Record cls r name =
     (case map_of (asdict r) name of
        Some v \<Rightarrow> Some (Str v)
      | None \<Rightarrow> cls name)"

text \<open>
  A part of the class table of \<open>Record\<close>: the two validators its class body defines,
  which are methods. It is not the whole table: a Record object also answers to
  \<open>__class__\<close>, \<open>__init__\<close>, \<open>__dict__\<close> and more (objects that are not strings), and to
  \<open>__module__\<close> and \<open>__doc__\<close> (strings whose value depends on how the module is loaded
  and on the Python version). The general facts about \<open>search_records\<close> hold for every
  table \<open>cls\<close>; this one is used at concrete inputs, and only at names on which it agrees
  with the real class: the two validators, and names that are no attribute at all.
\<close>

definition Record_class :: class_attrs where
  "Record_class name =
     (if name = ustr ''validate_string_fields'' \<or> name = ustr ''validate_phone'' then Some Object
      else None)"

section \<open>PhoneDirectory\<close>

text \<open>
  The file at \<open>file_path\<close> is modelled by what \<open>json.load\<close> makes of it: there is
  no file, its text is not JSON, or it holds a JSON document. \<open>json.dump\<close> writes a
  document that \<open>json.load\<close> reads back unchanged.
\<close>

datatype persisted = No_file | Not_JSON | Document json

text \<open>The calls of \<open>log.error\<close> and \<open>log.exception\<close>, by their message.\<close>

datatype log_entry =
  Error_decoding_JSON
  | Validation_error_in_the_data "(ustring \<times> field_error) list"
  | Field_does_not_exist ustring
  | Invalid_input
  | Invalid_index

record PhoneDirectory =
  file_content :: persisted
  records :: "Record list"

text \<open>\<open>for data in records_data\<close>: what iterating a JSON value yields.\<close>

fun iterate :: "json \<Rightarrow> pyerror + json list" where
  "iterate (JArray xs) = Inr xs"
| "iterate (JObject kvs) = Inr (map (\<lambda>kv. JString (fst kv)) kvs)"
| "iterate (JString s) = Inr (map (\<lambda>c. JString [c]) s)"
| "iterate JNull = Inl TypeError"
| "iterate (JBool b) = Inl TypeError"
| "iterate (JNumber n) = Inl TypeError"

text \<open>\<open>Record(**data)\<close>: the argument after \<open>**\<close> must be a mapping.\<close>

definition Record_of_json :: "json \<Rightarrow> pyerror + Record" where
  "Record_of_json data =
     (case data of JObject kwargs \<Rightarrow> Record_init kwargs | _ \<Rightarrow> Inl TypeError)"

text \<open>\<open>[Record(**data) for data in records_data]\<close>: the first exception ends it.\<close>

fun build_records :: "json list \<Rightarrow> pyerror + Record list" where
  "build_records [] = Inr []"
| "build_records (d # ds) =
     (case Record_of_json d of
        Inl e \<Rightarrow> Inl e
      | Inr r \<Rightarrow> (case build_records ds of Inl e \<Rightarrow> Inl e | Inr rs \<Rightarrow> Inr (r # rs)))"

text \<open>
  \<open>load_records\<close> returns the records and what it logged. \<open>FileNotFoundError\<close>,
  \<open>JSONDecodeError\<close> and \<open>ValidationError\<close> are caught; any other exception leaves
  the function.
\<close>

definition load_records :: "persisted \<Rightarrow> pyerror + (Record list \<times> log_entry list)" where
  "load_records f =
     (case f of
        No_file \<Rightarrow> Inr ([], [])
      | Not_JSON \<Rightarrow> Inr ([], [Error_decoding_JSON])
      | Document records_data \<Rightarrow>
          (case iterate records_data of
             Inl e \<Rightarrow> Inl e
           | Inr items \<Rightarrow>
               (case build_records items of
                  Inr rs \<Rightarrow> Inr (rs, [])
                | Inl (ValidationError es) \<Rightarrow> Inr ([], [Validation_error_in_the_data es])
                | Inl e \<Rightarrow> Inl e)))"

definition json_of_Record :: "Record \<Rightarrow> json" where
  "json_of_Record r = JObject (map (\<lambda>kv. (fst kv, JString (snd kv))) (asdict r))"

definition save_records :: "PhoneDirectory \<Rightarrow> PhoneDirectory" where
  "save_records pd = pd\<lparr>file_content := Document (JArray (map json_of_Record (records pd)))\<rparr>"

text \<open>
  \<open>xs[start:end]\<close>: a negative bound counts from the end of the list, and both bounds
  are clipped to the list.
\<close>

definition py_slice :: "'a list \<Rightarrow> int \<Rightarrow> int \<Rightarrow> 'a list" where
  "py_slice xs start stop =
     (let n = int (length xs);
          lo = (if start < 0 then max (start + n) 0 else min start n);
          hi = (if stop < 0 then max (stop + n) 0 else min stop n)
      in take (nat (hi - lo)) (drop (nat lo) xs))"

definition enumerate_from :: "int \<Rightarrow> 'a list \<Rightarrow> (int \<times> 'a) list" where
  "enumerate_from k xs = zip (map (\<lambda>i. k + int i) [0..<length xs]) xs"

text \<open>
  \<open>math.ceil(n / s)\<close> for a list length \<open>n\<close> and an \<open>int\<close> \<open>s\<close>. The quotient of two
  \<open>int\<close>s is a float: the binary64 number nearest to the exact quotient, ties going to
  the even mantissa, \<open>OverflowError\<close> when it is \<open>2^1024\<close> or more, zero or a subnormal
  number when the quotient is tiny. \<open>math.ceil\<close> of the float is the exact ceiling of
  that number, as an \<open>int\<close>.
\<close>

text \<open>\<open>int.bit_length()\<close>.\<close>

fun bit_length :: "nat \<Rightarrow> nat" where
  "bit_length n = (if n = 0 then 0 else Suc (bit_length (n div 2)))"

text \<open>The exponent \<open>e\<close> of a quotient of positive numbers: \<open>2^e \<le> a / b < 2^(e+1)\<close>.\<close>

definition binary_exponent :: "int \<Rightarrow> int \<Rightarrow> int" where
  "binary_exponent a b =
     (let d = int (bit_length (nat a)) - int (bit_length (nat b))
      in if (if 0 \<le> d then b * 2 ^ nat d \<le> a else b \<le> a * 2 ^ nat (- d)) then d
         else d - 1)"

text \<open>The integer nearest to \<open>p / q\<close> for \<open>q > 0\<close>, a tie going to the even one.\<close>

definition round_half_even :: "int \<Rightarrow> int \<Rightarrow> int" where
  "round_half_even p q =
     (let f = p div q; r = p mod q
      in if 2 * r < q then f else if q < 2 * r then f + 1 else if even f then f else f + 1)"

text \<open>
  The float nearest to \<open>a / b\<close> for positive \<open>a\<close> and \<open>b\<close>, as \<open>(m, k)\<close>: its value is
  \<open>m * 2^k\<close>. A float has 53 bits of mantissa, so its last bit weighs \<open>2^(e - 52)\<close>, and
  never less than \<open>2^(-1074)\<close>.
\<close>

definition nearest_double :: "int \<Rightarrow> int \<Rightarrow> int \<times> int" where
  "nearest_double a b =
     (let k = max (binary_exponent a b) (- 1022) - 52
      in (if k \<le> 0 then round_half_even (a * 2 ^ nat (- k)) b
          else round_half_even a (b * 2 ^ nat k), k))"

definition ceil_true_div :: "nat \<Rightarrow> int \<Rightarrow> pyerror + int" where
  "ceil_true_div n s =
     (if s = 0 then Inl ZeroDivisionError
      else if n = 0 then Inr 0
      else
        (case nearest_double (int n) \<bar>s\<bar> of
           (m, k) \<Rightarrow>
             if 0 < k \<and> 2 ^ 1024 \<le> m * 2 ^ nat k then Inl OverflowError
             else if 0 < s then
               Inr (if k \<le> 0 then - ((- m) div 2 ^ nat (- k)) else m * 2 ^ nat k)
             else
               Inr (if k \<le> 0 then - (m div 2 ^ nat (- k)) else - (m * 2 ^ nat k))))"

text \<open>
  What \<open>display_records\<close> prints: the entries of the page, each under its \<open>ID\<close>, and the
  line \<open>Page p/total\<close>. The entries are printed first; when the division raises, the
  exception takes the place of the last line.
\<close>

record page =
  shown :: "(int \<times> Record) list"
  footer :: "pyerror + (int \<times> int)"

text \<open>\<open>records or self.records\<close>: \<open>None\<close> and the empty list are both false.\<close>

definition records_or :: "Record list option \<Rightarrow> Record list \<Rightarrow> Record list" where
  "records_or records_arg self_records =
     (case records_arg of
        None \<Rightarrow> self_records
      | Some rs \<Rightarrow> if rs = [] then self_records else rs)"

definition display_records ::
  "Record list \<Rightarrow> Record list option \<Rightarrow> int \<Rightarrow> int \<Rightarrow> page" where
  "display_records self_records records_arg entries_per_page page_number =
     (let records_to_display = records_or records_arg self_records;
          start_index = (page_number - 1) * entries_per_page;
          end_index = start_index + entries_per_page;
          current_page_records = py_slice records_to_display start_index end_index
      in \<lparr>shown = enumerate_from (start_index + 1) current_page_records,
          footer =
            (case ceil_true_div (length records_to_display) entries_per_page of
               Inl e \<Rightarrow> Inl e
             | Inr pages \<Rightarrow> Inr (page_number, pages))\<rparr>)"

definition add_record :: "PhoneDirectory \<Rightarrow> Record \<Rightarrow> PhoneDirectory" where
  "add_record pd record = save_records (pd\<lparr>records := records pd @ [record]\<rparr>)"

text \<open>\<open>xs[i]\<close> on a list: a negative index counts from the end; \<open>None\<close> is \<open>IndexError\<close>.\<close>

definition py_index :: "'a list \<Rightarrow> int \<Rightarrow> 'a option" where
  "py_index xs i =
     (let n = int (length xs); j = (if i < 0 then n + i else i)
      in if 0 \<le> j \<and> j < n then Some (xs ! nat j) else None)"

text \<open>
  \<open>edit_record\<close> reads two lines. The first goes through \<open>int(...)\<close>: it is given here
  as the integer it denotes, \<open>None\<close> when it denotes none (\<open>ValueError\<close>, which the
  \<open>except\<close> clause does not name). The second is the new value.
\<close>

definition edit_record ::
  "PhoneDirectory \<Rightarrow> int \<Rightarrow> int option \<Rightarrow> ustring \<Rightarrow> pyerror + (PhoneDirectory \<times> log_entry list)" where
  "edit_record pd index field_number new_value =
     (if 0 \<le> index \<and> index < int (length (records pd)) then
        (let record = records pd ! nat index in
         case field_number of
           None \<Rightarrow> Inl ValueError
         | Some k \<Rightarrow>
             (case py_index (map fst (asdict record)) (k - 1) of
                None \<Rightarrow> Inr (pd, [Invalid_input])
              | Some selected_field \<Rightarrow>
                  Inr (save_records
                         (pd\<lparr>records :=
                               (records pd)[nat index :=
                                  setattr_Record record selected_field new_value]\<rparr>),
                       [])))
      else Inr (pd, [Invalid_index]))"

text \<open>
  \<open>search_records\<close>. The branch on \<open>=\<close> unpacks \<open>query.split("=")\<close> into exactly two
  names; any other number of pieces is a \<open>ValueError\<close>.
\<close>

fun search_field ::
  "class_attrs \<Rightarrow> (ustring \<Rightarrow> ustring) \<Rightarrow> ustring \<Rightarrow> ustring \<Rightarrow> Record list \<Rightarrow> Record list
     \<Rightarrow> pyerror + (Record list \<times> log_entry list)" where
  "search_field cls lower field v [] results = Inr (results, [])"
| "search_field cls lower field v (record # rest) results =
     (case getattr_Record cls record field of
        None \<Rightarrow> Inr (results, [Field_does_not_exist field])
      | Some Object \<Rightarrow> Inl AttributeError
      | Some (Str s) \<Rightarrow>
          if lower s = lower v then search_field cls lower field v rest (results @ [record])
          else search_field cls lower field v rest results)"

fun search_any ::
  "(ustring \<Rightarrow> ustring) \<Rightarrow> ustring \<Rightarrow> Record list \<Rightarrow> Record list \<Rightarrow> Record list" where
  "search_any lower query [] results = results"
| "search_any lower query (record # rest) results =
     (if list_ex (\<lambda>v. str_contains (lower query) (lower v)) (map snd (asdict record))
      then search_any lower query rest (results @ [record])
      else search_any lower query rest results)"

definition search_records ::
  "class_attrs \<Rightarrow> (ustring \<Rightarrow> ustring) \<Rightarrow> Record list \<Rightarrow> ustring
     \<Rightarrow> pyerror + (Record list \<times> log_entry list)" where
  "search_records cls lower self_records query =
     (if 61 \<in> set (lower query) then
        (case split_on 61 query of
           [field, v] \<Rightarrow> search_field cls lower field v self_records []
         | _ \<Rightarrow> Inl ValueError)
      else Inr (search_any lower query self_records [], []))"

section \<open>Notions the claims are stated with\<close>

text \<open>A record whose six fields match their patterns.\<close>

definition valid_Record :: "Record \<Rightarrow> bool" where
  "valid_Record r =
     (re_match name_pattern (last_name r) \<and> re_match name_pattern (first_name r) \<and>
      re_match name_pattern (middle_name r) \<and> re_match name_pattern (organization r) \<and>
      re_match phone_pattern (work_phone r) \<and> re_match phone_pattern (personal_phone r))"

text \<open>The needle is a substring of the haystack.\<close>

definition occurs_in :: "ustring \<Rightarrow> ustring \<Rightarrow> bool" where
  "occurs_in needle haystack = (\<exists>a b. haystack = a @ needle @ b)"

section \<open>Sample data\<close>

text \<open>
  Two records of the repository's tests, written by code point: the last names are
  Sokolov and Ivanov in Cyrillic, \<open>andrey\<close> is the test query in lower case.
\<close>

definition sokolov :: Record where
  "sokolov =
     \<lparr>last_name = [1057, 1086, 1082, 1086, 1083, 1086, 1074],
      first_name = [1040, 1085, 1076, 1088, 1077, 1081],
      middle_name = [1040, 1085, 1072, 1090, 1086, 1083, 1100, 1077, 1074, 1080, 1095],
      organization = [1057, 1073, 1077, 1088, 1041, 1072, 1085, 1082],
      work_phone = ustr ''495-555-6666'',
      personal_phone = ustr ''916-666-7777''\<rparr>"

definition ivanov :: Record where
  "ivanov =
     \<lparr>last_name = [1048, 1074, 1072, 1085, 1086, 1074],
      first_name = [1040, 1083, 1077, 1082, 1089, 1077, 1081],
      middle_name = [1042, 1083, 1072, 1076, 1080, 1084, 1080, 1088, 1086, 1074, 1080, 1095],
      organization = [1054, 1054, 1054, 32, 1056, 1086, 1089, 1058, 1077, 1093],
      work_phone = ustr ''495-123-4567'',
      personal_phone = ustr ''910-555-6789''\<rparr>"

definition andrey :: ustring where
  "andrey = [1072, 1085, 1076, 1088, 1077, 1081]"


section \<open>Strings and matchers: basic facts\<close>

lemma starts_with_iff: "starts_with p s = (\<exists>b. s = p @ b)"
  by (induction p s rule: starts_with.induct) auto

lemma str_contains_iff: "str_contains needle h = (\<exists>a b. h = a @ needle @ b)"
proof (induction h)
  case Nil
  then show ?case by auto
next
  case (Cons c cs)
  show ?case
  proof
    assume "str_contains needle (c # cs)"
    then consider "starts_with needle (c # cs)" | "str_contains needle cs" by auto
    then show "\<exists>a b. c # cs = a @ needle @ b"
    proof cases
      case 1
      then obtain b where "c # cs = needle @ b" by (auto simp: starts_with_iff)
      then have "c # cs = [] @ needle @ b" by simp
      then show ?thesis by blast
    next
      case 2
      then obtain a b where "cs = a @ needle @ b" using Cons.IH by auto
      then have "c # cs = (c # a) @ needle @ b" by simp
      then show ?thesis by blast
    qed
  next
    assume "\<exists>a b. c # cs = a @ needle @ b"
    then obtain a b where ab: "c # cs = a @ needle @ b" by blast
    show "str_contains needle (c # cs)"
    proof (cases a)
      case Nil
      then have "starts_with needle (c # cs)" using ab by (auto simp: starts_with_iff)
      then show ?thesis by simp
    next
      case (Cons a0 as)
      then have "cs = as @ needle @ b" using ab by simp
      then have "str_contains needle cs" using Cons.IH by blast
      then show ?thesis by simp
    qed
  qed
qed

lemma split_on_not_Nil: "split_on sep s \<noteq> []"
  by (induction s) (auto split: list.splits)

lemma split_on_no_sep: "sep \<notin> set s \<Longrightarrow> split_on sep s = [s]"
  by (induction s) auto

lemma split_on_append: "sep \<notin> set a \<Longrightarrow> split_on sep (a @ sep # b) = a # split_on sep b"
  by (induction a) auto

lemma split_on_one_sep:
  "sep \<notin> set a \<Longrightarrow> sep \<notin> set b \<Longrightarrow> split_on sep (a @ sep # b) = [a, b]"
  by (simp add: split_on_append split_on_no_sep)

lemma length_split_on: "length (split_on sep s) = Suc (length (filter (\<lambda>c. c = sep) s))"
  by (induction s) (auto split: list.splits simp: split_on_not_Nil)

lemma mem_one_of: "r \<in> set (one_of P s) \<longleftrightarrow> (\<exists>c. P c \<and> s = c # r)"
  by (auto simp: one_of_def split: list.splits)

lemma mem_optional: "r \<in> set (optional m s) \<longleftrightarrow> r \<in> set (m s) \<or> r = s"
  by (auto simp: optional_def)

lemma mem_then_match: "r \<in> set (then_match m1 m2 s) \<longleftrightarrow> (\<exists>mid. mid \<in> set (m1 s) \<and> r \<in> set (m2 mid))"
  by (auto simp: then_match_def)

lemma mem_times: "r \<in> set (times n P s) \<longleftrightarrow> (\<exists>w. length w = n \<and> list_all P w \<and> s = w @ r)"
proof (induction n arbitrary: s)
  case 0
  then show ?case by auto
next
  case (Suc n)
  show ?case
  proof
    assume "r \<in> set (times (Suc n) P s)"
    then obtain c w where "P c" "s = c # w @ r" "length w = n" "list_all P w"
      using Suc.IH by (auto simp: mem_one_of)
    then have "length (c # w) = Suc n \<and> list_all P (c # w) \<and> s = (c # w) @ r" by simp
    then show "\<exists>w. length w = Suc n \<and> list_all P w \<and> s = w @ r" by blast
  next
    assume "\<exists>w. length w = Suc n \<and> list_all P w \<and> s = w @ r"
    then obtain w where w: "length w = Suc n" "list_all P w" "s = w @ r" by blast
    then obtain c w' where cw: "w = c # w'" by (cases w) auto
    then have "r \<in> set (times n P (w' @ r))" using w Suc.IH by auto
    then show "r \<in> set (times (Suc n) P s)" using w cw by (auto simp: mem_one_of)
  qed
qed

lemma mem_between:
  "r \<in> set (between lo hi P s) \<longleftrightarrow> (\<exists>w. lo \<le> length w \<and> length w \<le> hi \<and> list_all P w \<and> s = w @ r)"
  by (auto simp: between_def mem_times)

lemma mem_one_or_more:
  "r \<in> set (one_or_more P s) \<longleftrightarrow> (\<exists>w. w \<noteq> [] \<and> list_all P w \<and> s = w @ r)"
proof (induction s)
  case Nil
  then show ?case by auto
next
  case (Cons c cs)
  show ?case
  proof
    assume a: "r \<in> set (one_or_more P (c # cs))"
    then have pc: "P c" by (auto split: if_splits)
    from a pc consider "r = cs" | "r \<in> set (one_or_more P cs)" by auto
    then show "\<exists>w. w \<noteq> [] \<and> list_all P w \<and> c # cs = w @ r"
    proof cases
      case 1
      then have "[c] \<noteq> [] \<and> list_all P [c] \<and> c # cs = [c] @ r" using pc by simp
      then show ?thesis by blast
    next
      case 2
      then obtain w where "w \<noteq> []" "list_all P w" "cs = w @ r" using Cons.IH by blast
      then have "c # w \<noteq> [] \<and> list_all P (c # w) \<and> c # cs = (c # w) @ r" using pc by simp
      then show ?thesis by blast
    qed
  next
    assume "\<exists>w. w \<noteq> [] \<and> list_all P w \<and> c # cs = w @ r"
    then obtain w where w: "w \<noteq> []" "list_all P w" "c # cs = w @ r" by blast
    then obtain w' where w': "w = c # w'" by (cases w) auto
    then have pc: "P c" and cs: "cs = w' @ r" and pw: "list_all P w'" using w by auto
    show "r \<in> set (one_or_more P (c # cs))"
    proof (cases w')
      case Nil
      then show ?thesis using pc cs by simp
    next
      case (Cons a as)
      then have "r \<in> set (one_or_more P cs)" using Cons.IH cs pw by blast
      then show ?thesis using pc by simp
    qed
  qed
qed

lemma mem_end_anchor: "r \<in> set (end_anchor s) \<longleftrightarrow> r = s \<and> (s = [] \<or> s = [10])"
  by (auto simp: end_anchor_def)

lemma re_match_iff: "re_match m s \<longleftrightarrow> (\<exists>r. r \<in> set (m s))"
  by (cases "m s") (auto simp: re_match_def)

lemma mem_sequence_Cons:
  "r \<in> set (sequence (m # ms) s) \<longleftrightarrow> (\<exists>mid. mid \<in> set (m s) \<and> r \<in> set (sequence ms mid))"
  by (simp add: mem_then_match)

lemma mem_opt_one_of:
  "r \<in> set (optional (one_of P) s) \<longleftrightarrow> (\<exists>w. s = w @ r \<and> (w = [] \<or> (\<exists>c. P c \<and> w = [c])))"
  by (auto simp: mem_optional mem_one_of)

lemma mem_times_w: "r \<in> set (times n P s) \<longleftrightarrow> (\<exists>w. s = w @ r \<and> length w = n \<and> list_all P w)"
  by (auto simp: mem_times)

lemma mem_between_w:
  "r \<in> set (between lo hi P s) \<longleftrightarrow> (\<exists>w. s = w @ r \<and> lo \<le> length w \<and> length w \<le> hi \<and> list_all P w)"
  by (auto simp: mem_between)

lemma phone_pattern_iff:
  "re_match phone_pattern v \<longleftrightarrow>
     (\<exists>plus lparen area rparen sep1 exch sep2 sub nl.
        v = plus @ lparen @ area @ rparen @ sep1 @ exch @ sep2 @ sub @ nl \<and>
        (plus = [] \<or> plus = [43]) \<and>
        (lparen = [] \<or> lparen = [40]) \<and>
        length area = 3 \<and> list_all is_digit area \<and>
        (rparen = [] \<or> rparen = [41]) \<and>
        (sep1 = [] \<or> (\<exists>c. is_separator c \<and> sep1 = [c])) \<and>
        length exch = 3 \<and> list_all is_digit exch \<and>
        (sep2 = [] \<or> (\<exists>c. is_separator c \<and> sep2 = [c])) \<and>
        4 \<le> length sub \<and> length sub \<le> 6 \<and> list_all is_digit sub \<and>
        (nl = [] \<or> nl = [10]))"
  unfolding re_match_iff phone_pattern_def
  apply (simp add: mem_sequence_Cons mem_opt_one_of mem_times_w mem_between_w mem_end_anchor
      del: sequence.simps(2))
  apply (rule iffI)
   apply (elim exE conjE)
   apply hypsubst
   apply (intro exI conjI)
                  apply (rule refl)
                 apply assumption+
  apply (elim exE conjE)
  apply hypsubst
  apply (intro exI conjI)
                      apply (rule refl | assumption)+
  done

section \<open>Loading and saving: basic facts\<close>

lemma field_name_values:
  "ustr ''__dataclass_self__'' =
     [95, 95, 100, 97, 116, 97, 99, 108, 97, 115, 115, 95, 115, 101, 108, 102, 95, 95]"
  "ustr ''last_name'' = [108, 97, 115, 116, 95, 110, 97, 109, 101]"
  "ustr ''first_name'' = [102, 105, 114, 115, 116, 95, 110, 97, 109, 101]"
  "ustr ''middle_name'' = [109, 105, 100, 100, 108, 101, 95, 110, 97, 109, 101]"
  "ustr ''organization'' = [111, 114, 103, 97, 110, 105, 122, 97, 116, 105, 111, 110]"
  "ustr ''work_phone'' = [119, 111, 114, 107, 95, 112, 104, 111, 110, 101]"
  "ustr ''personal_phone'' = [112, 101, 114, 115, 111, 110, 97, 108, 95, 112, 104, 111, 110, 101]"
  by (simp_all add: ustr_def)

lemma validate_argument_name:
  assumes "validate_argument kwargs name = Inr v"
    and "name \<noteq> ustr ''work_phone''" and "name \<noteq> ustr ''personal_phone''"
  shows "re_match name_pattern v"
  using assms
  by (auto simp: validate_argument_def validator_of_def validate_string_fields_def
      split: option.splits json.splits if_splits)

lemma validate_argument_phone:
  assumes "validate_argument kwargs name = Inr v"
    and "name = ustr ''work_phone'' \<or> name = ustr ''personal_phone''"
  shows "re_match phone_pattern v"
  using assms
  by (auto simp: validate_argument_def validator_of_def validate_phone_def
      split: option.splits json.splits if_splits)

lemma argument_errors_Nil:
  assumes "argument_errors kwargs = []" and "name \<in> set field_names"
  shows "\<exists>v. validate_argument kwargs name = Inr v"
proof (cases "validate_argument kwargs name")
  case (Inl e)
  then have "(name, e) \<in> set (argument_errors kwargs)"
    using assms(2) by (force simp: argument_errors_def)
  then show ?thesis using assms(1) by simp
next
  case (Inr v)
  then show ?thesis by blast
qed

text \<open>What \<open>Record(**kwargs)\<close> returns is a valid record: construction validates.\<close>

lemma Record_init_valid:
  assumes "Record_init kwargs = Inr r"
  shows "valid_Record r"
proof -
  have noerr: "argument_errors kwargs = []"
    using assms by (simp add: Record_init_def split: list.splits if_splits)
  have r: "r = \<lparr>last_name = argument_value kwargs (ustr ''last_name''),
               first_name = argument_value kwargs (ustr ''first_name''),
               middle_name = argument_value kwargs (ustr ''middle_name''),
               organization = argument_value kwargs (ustr ''organization''),
               work_phone = argument_value kwargs (ustr ''work_phone''),
               personal_phone = argument_value kwargs (ustr ''personal_phone'')\<rparr>"
    using assms noerr by (simp add: Record_init_def split: if_splits)
  have nm: "re_match name_pattern (argument_value kwargs name)"
    if fld: "name \<in> set field_names"
      and n1: "name \<noteq> ustr ''work_phone''" and n2: "name \<noteq> ustr ''personal_phone''"
    for name
  proof -
    obtain v where v: "validate_argument kwargs name = Inr v"
      using argument_errors_Nil[OF noerr fld] by blast
    then show ?thesis
      using validate_argument_name[OF v n1 n2] by (simp add: argument_value_def)
  qed
  have ph: "re_match phone_pattern (argument_value kwargs name)"
    if phone: "name = ustr ''work_phone'' \<or> name = ustr ''personal_phone''" for name
  proof -
    have "name \<in> set field_names" using phone by (auto simp: field_names_def)
    then obtain v where v: "validate_argument kwargs name = Inr v"
      using argument_errors_Nil[OF noerr] by blast
    then show ?thesis
      using validate_argument_phone[OF v phone] by (simp add: argument_value_def)
  qed
  show ?thesis
    unfolding valid_Record_def
    by (simp add: r nm ph field_names_def field_name_values)
qed

text \<open>A valid record, written by \<open>save_records\<close>, is read back as it was.\<close>

lemma Record_init_asdict:
  assumes "valid_Record r"
  shows "Record_of_json (json_of_Record r) = Inr r"
  using assms
  by (simp add: Record_of_json_def json_of_Record_def Record_init_def argument_errors_def
      argument_value_def validate_argument_def validator_of_def asdict_def field_names_def
      valid_Record_def validate_string_fields_def validate_phone_def field_name_values)

lemma build_records_valid:
  "list_all valid_Record rs \<Longrightarrow> build_records (map json_of_Record rs) = Inr rs"
  by (induction rs) (simp_all add: Record_init_asdict)

text \<open>
  \<open>Record(**kwargs)\<close> raises \<open>TypeError\<close> or \<open>ValidationError\<close>, and
  \<open>ValidationError\<close> only when no keyword is named \<open>__dataclass_self__\<close>. In a list
  of such objects one that fails makes \<open>load_records\<close> drop them all.
\<close>

lemma Record_init_error:
  "Record_init kwargs = Inl e \<Longrightarrow> e = TypeError \<or> (\<exists>es. e = ValidationError es)"
  by (auto simp: Record_init_def split: list.splits if_splits)

lemma Record_init_ValidationError:
  assumes "map_of kwargs (ustr ''__dataclass_self__'') = None"
    and "Record_init kwargs = Inl e"
  shows "\<exists>es. e = ValidationError es"
  using assms by (auto simp: Record_init_def split: list.splits if_splits)

lemma build_records_objects_fail:
  assumes "list_all (\<lambda>kwargs. map_of kwargs (ustr ''__dataclass_self__'') = None) objs"
    and "list_ex (\<lambda>kwargs. isl (Record_init kwargs)) objs"
  shows "\<exists>es. build_records (map JObject objs) = Inl (ValidationError es)"
  using assms
proof (induction objs)
  case Nil
  then show ?case by simp
next
  case (Cons kw kws)
  from Cons.prems(1) have key: "map_of kw (ustr ''__dataclass_self__'') = None"
    and keys: "list_all (\<lambda>kwargs. map_of kwargs (ustr ''__dataclass_self__'') = None) kws"
    by simp_all
  show ?case
  proof (cases "Record_init kw")
    case (Inl e)
    then obtain es where "e = ValidationError es"
      using Record_init_ValidationError[OF key] by blast
    then show ?thesis using Inl by (simp add: Record_of_json_def)
  next
    case (Inr r)
    then have "list_ex (\<lambda>kwargs. isl (Record_init kwargs)) kws" using Cons.prems(2) by simp
    then obtain es where "build_records (map JObject kws) = Inl (ValidationError es)"
      using Cons.IH keys by blast
    then show ?thesis using Inr by (simp add: Record_of_json_def)
  qed
qed

lemma load_records_objects_all_or_nothing:
  assumes "list_all (\<lambda>kwargs. map_of kwargs (ustr ''__dataclass_self__'') = None) objs"
    and "list_ex (\<lambda>kwargs. isl (Record_init kwargs)) objs"
  shows "\<exists>es. load_records (Document (JArray (map JObject objs))) =
               Inr ([], [Validation_error_in_the_data es])"
proof -
  obtain es where "build_records (map JObject objs) = Inl (ValidationError es)"
    using build_records_objects_fail[OF assms] by blast
  then show ?thesis by (simp add: load_records_def)
qed

section \<open>Searching and paging: basic facts\<close>

lemma str_contains_occurs_in: "str_contains needle h = occurs_in needle h"
  by (simp add: str_contains_iff occurs_in_def)

lemma search_field_Str:
  assumes "\<And>r. getattr_Record cls r field = Some (Str (g r))"
  shows "search_field cls lower field v rs acc = Inr (acc @ filter (\<lambda>r. lower (g r) = lower v) rs, [])"
  by (induction rs arbitrary: acc) (simp_all add: assms)

lemma search_any_filter:
  "search_any lower q rs acc =
     acc @ filter (\<lambda>r. list_ex (\<lambda>v. str_contains (lower q) (lower v)) (map snd (asdict r))) rs"
  by (induction rs arbitrary: acc) simp_all

lemma map_of_asdict_field:
  assumes "field \<in> set field_names"
  shows "\<exists>s. map_of (asdict r) field = Some s"
  using assms by (auto simp: field_names_def asdict_def)

lemma field_names_no_eq: "field \<in> set field_names \<Longrightarrow> 61 \<notin> set field"
  by (auto simp: field_names_def field_name_values)

lemma map_of_asdict_None:
  "field \<notin> set field_names \<Longrightarrow> map_of (asdict r) field = None"
  by (simp add: field_names_def asdict_def)

text \<open>
  The search by field on a query \<open>field=value\<close> whose value holds no further \<open>=\<close>:
  for each of the six field names the result is the records whose field equals the
  value after lower-casing both, in directory order, with nothing logged. (That
  lower-casing keeps the \<open>=\<close> of the query is a fact about \<open>str.lower\<close>.)
\<close>

lemma search_records_exact_field:
  assumes fld: "field \<in> set field_names" and v: "61 \<notin> set v"
    and low: "61 \<in> set (lower (field @ 61 # v))"
  shows "search_records cls lower D (field @ 61 # v) =
     Inr (filter (\<lambda>r. \<exists>s. map_of (asdict r) field = Some s \<and> lower s = lower v) D, [])"
proof -
  have split: "split_on 61 (field @ 61 # v) = [field, v]"
    using field_names_no_eq[OF fld] v by (rule split_on_one_sep)
  have get: "getattr_Record cls r field = Some (Str (the (map_of (asdict r) field)))" for r
  proof -
    obtain s where "map_of (asdict r) field = Some s"
      using map_of_asdict_field[OF fld] by blast
    then show ?thesis by (simp add: getattr_Record_def)
  qed
  have "(lower (the (map_of (asdict r) field)) = lower v) =
        (\<exists>s. map_of (asdict r) field = Some s \<and> lower s = lower v)" for r
  proof -
    obtain s where "map_of (asdict r) field = Some s"
      using map_of_asdict_field[OF fld] by blast
    then show ?thesis by simp
  qed
  then have "(\<lambda>r. lower (the (map_of (asdict r) field)) = lower v) =
        (\<lambda>r. \<exists>s. map_of (asdict r) field = Some s \<and> lower s = lower v)"
    by (simp add: fun_eq_iff)
  then show ?thesis
    using low by (simp add: search_records_def split search_field_Str[OF get])
qed

text \<open>
  The search by field on a name that is no field. Three cases, by what the class says of
  the name: no attribute (the field is reported at the first record and nothing is
  found; with no record nothing is reported), an attribute that is not a string
  (\<open>.lower()\<close> fails on it at the first record), an attribute that is a string (it is
  compared with the value, for every record alike).
\<close>

lemma search_records_no_attribute:
  assumes "61 \<notin> set field" and "61 \<notin> set v" and "61 \<in> set (lower (field @ 61 # v))"
    and "field \<notin> set field_names" and "cls field = None"
  shows "search_records cls lower (r # rs) (field @ 61 # v) = Inr ([], [Field_does_not_exist field])
       \<and> search_records cls lower [] (field @ 61 # v) = Inr ([], [])"
  using assms
  by (simp add: search_records_def split_on_one_sep getattr_Record_def map_of_asdict_None)

lemma search_records_class_object:
  assumes "61 \<notin> set field" and "61 \<notin> set v" and "61 \<in> set (lower (field @ 61 # v))"
    and "field \<notin> set field_names" and "cls field = Some Object"
  shows "search_records cls lower (r # rs) (field @ 61 # v) = Inl AttributeError"
  using assms
  by (simp add: search_records_def split_on_one_sep getattr_Record_def map_of_asdict_None)

lemma search_records_class_string:
  assumes "61 \<notin> set field" and "61 \<notin> set v" and "61 \<in> set (lower (field @ 61 # v))"
    and "field \<notin> set field_names" and "cls field = Some (Str m)"
  shows "search_records cls lower D (field @ 61 # v) =
           Inr (if lower m = lower v then D else [], [])"
proof -
  have get: "getattr_Record cls r field = Some (Str m)" for r
    using assms(4,5) by (simp add: getattr_Record_def map_of_asdict_None)
  show ?thesis
    using assms(1,2,3) by (simp add: search_records_def split_on_one_sep search_field_Str[OF get])
qed

lemma py_slice_from:
  assumes "0 \<le> a" and "0 < s"
  shows "py_slice xs a (a + s) = take (nat s) (drop (nat a) xs)"
proof (cases "a + s \<le> int (length xs)")
  case True
  then have "nat (a + s - a) = nat s" by simp
  then show ?thesis using assms True by (simp add: py_slice_def Let_def)
next
  case False
  show ?thesis
  proof (cases "a \<le> int (length xs)")
    case True
    have "take (nat (int (length xs) - a)) (drop (nat a) xs) = drop (nat a) xs"
      using True assms by (simp add: nat_diff_distrib')
    moreover have "take (nat s) (drop (nat a) xs) = drop (nat a) xs"
      using False assms by simp
    ultimately show ?thesis using assms True False by (simp add: py_slice_def Let_def)
  next
    case False
    then show ?thesis using assms by (simp add: py_slice_def Let_def)
  qed
qed

lemma py_slice_page:
  assumes "0 < s" and "1 \<le> p"
  shows "py_slice xs ((p - 1) * s) ((p - 1) * s + s) = take (nat s) (drop (nat ((p - 1) * s)) xs)"
proof -
  have "0 \<le> (p - 1) * s" using assms by simp
  then show ?thesis using assms(1) by (rule py_slice_from)
qed

text \<open>
  \<open>math.ceil(n / s)\<close>: for a list length below \<open>2^53\<close> and a positive page size the
  float quotient has the ceiling of the exact quotient, unless the quotient is so small
  that it rounds to zero, which is when \<open>s \<ge> n * 2^1075\<close>.
\<close>

declare bit_length.simps [simp del]

lemma bit_length_bounds:
  "0 < n \<Longrightarrow> 2 ^ (bit_length n - 1) \<le> n \<and> n < 2 ^ bit_length n"
proof (induction n rule: bit_length.induct)
  case (1 n)
  show ?case
  proof (cases "n div 2 = 0")
    case True
    then have "n = 1" using "1.prems" by linarith
    then show ?thesis by (simp add: bit_length.simps)
  next
    case False
    then have IH: "2 ^ (bit_length (n div 2) - 1) \<le> n div 2 \<and> n div 2 < 2 ^ bit_length (n div 2)"
      using "1.IH" "1.prems" by simp
    have bl: "bit_length n = Suc (bit_length (n div 2))"
      using "1.prems" by (subst bit_length.simps) simp
    have pos: "0 < bit_length (n div 2)"
      using False by (subst bit_length.simps) simp
    then have "(2::nat) ^ bit_length (n div 2) = 2 * 2 ^ (bit_length (n div 2) - 1)"
      by (cases "bit_length (n div 2)") simp_all
    then show ?thesis using IH bl by simp linarith
  qed
qed

lemma rhe_le:
  fixes p q K :: int
  assumes "0 < q" and "p \<le> K * q"
  shows "round_half_even p q \<le> K"
proof -
  define f where "f = p div q"
  define r where "r = p mod q"
  have p: "p = f * q + r" by (simp add: f_def r_def)
  have r: "0 \<le> r" "r < q" using assms(1) by (simp_all add: r_def)
  have fK: "f \<le> K"
  proof (rule ccontr)
    assume "\<not> f \<le> K"
    then have "K + 1 \<le> f" by simp
    then have "(K + 1) * q \<le> f * q" using assms(1) by (simp add: mult_right_mono)
    then show False using p r assms(2) by (simp add: algebra_simps)
  qed
  have "f + 1 \<le> K" if "0 < r"
  proof (rule ccontr)
    assume "\<not> f + 1 \<le> K"
    then have "f = K" using fK by simp
    then show False using p that assms(2) by simp
  qed
  then show ?thesis
    using fK r by (auto simp: round_half_even_def Let_def f_def[symmetric] r_def[symmetric])
qed

lemma rhe_gt:
  fixes p q K :: int
  assumes "0 < q" and "(2 * K + 1) * q < 2 * p"
  shows "K < round_half_even p q"
proof -
  define f where "f = p div q"
  define r where "r = p mod q"
  have p: "p = f * q + r" by (simp add: f_def r_def)
  have r: "0 \<le> r" "r < q" using assms(1) by (simp_all add: r_def)
  have fK: "K \<le> f"
  proof (rule ccontr)
    assume "\<not> K \<le> f"
    then have "f + 1 \<le> K" by simp
    then have "(f + 1) * q \<le> K * q" using assms(1) by (simp add: mult_right_mono)
    then show False using p r assms(2) by (simp add: algebra_simps)
  qed
  show ?thesis
  proof (cases "f = K")
    case True
    then have "q < 2 * r" using p assms(2) by (simp add: algebra_simps)
    then show ?thesis
      using True by (simp add: round_half_even_def Let_def f_def[symmetric] r_def[symmetric])
  next
    case False
    then have "K < f" using fK by simp
    then show ?thesis
      by (simp add: round_half_even_def Let_def f_def[symmetric] r_def[symmetric])
  qed
qed



lemma bit_length_real:
  fixes a :: int
  assumes "0 < a"
  shows "2 powi (int (bit_length (nat a)) - 1) \<le> real_of_int a"
    and "real_of_int a < 2 powi (int (bit_length (nat a)))"
proof -
  define l where "l = bit_length (nat a)"
  have b: "2 ^ (l - 1) \<le> nat a" "nat a < 2 ^ l"
    using bit_length_bounds[of "nat a"] assms by (simp_all add: l_def)
  have lpos: "0 < l" using b(2) assms by (cases l) simp_all
  have "real (2 ^ (l - 1)) \<le> real (nat a)" using b(1) by (rule of_nat_mono)
  then have "(2::real) ^ (l - 1) \<le> real_of_int a" using assms by simp
  moreover have "(2::real) powi (int l - 1) = 2 ^ (l - 1)"
    using lpos by (simp add: power_int_def nat_diff_distrib')
  ultimately show "2 powi (int (bit_length (nat a)) - 1) \<le> real_of_int a"
    by (simp add: l_def)
  have "real (nat a) < real (2 ^ l)" using b(2) by (rule of_nat_less_imp_less[OF _] | simp)+
  then have "real_of_int a < 2 ^ l" using assms by simp
  then show "real_of_int a < 2 powi (int (bit_length (nat a)))"
    by (simp add: l_def power_int_def)
qed

lemma binary_exponent_bounds:
  fixes a b :: int
  assumes "0 < a" and "0 < b"
  shows "2 powi (binary_exponent a b) \<le> real_of_int a / real_of_int b"
    and "real_of_int a / real_of_int b < 2 powi (binary_exponent a b + 1)"
proof -
  define la where "la = int (bit_length (nat a))"
  define lb where "lb = int (bit_length (nat b))"
  define d where "d = la - lb"
  define x where "x = real_of_int a / real_of_int b"
  have ra: "0 < real_of_int a" and rb: "0 < real_of_int b" using assms by simp_all
  have A: "2 powi (la - 1) \<le> real_of_int a" "real_of_int a < 2 powi la"
    using bit_length_real[OF assms(1)] by (simp_all add: la_def)
  have B: "2 powi (lb - 1) \<le> real_of_int b" "real_of_int b < 2 powi lb"
    using bit_length_real[OF assms(2)] by (simp_all add: lb_def)
  have lo: "2 powi (d - 1) < x"
  proof -
    have "2 powi (d - 1) = (2::real) powi (la - 1) / 2 powi lb"
      by (simp add: d_def power_int_diff)
    also have "\<dots> \<le> real_of_int a / 2 powi lb"
      using A(1) by (simp add: divide_right_mono)
    also have "\<dots> < real_of_int a / real_of_int b"
      using B(2) ra rb by (simp add: divide_strict_left_mono)
    finally show ?thesis by (simp add: x_def)
  qed
  have hi: "x < 2 powi (d + 1)"
  proof -
    have "x < 2 powi la / real_of_int b"
      using A(2) rb by (simp add: x_def divide_strict_right_mono)
    also have "\<dots> \<le> 2 powi la / 2 powi (lb - 1)"
      using B(1) rb by (simp add: divide_left_mono)
    also have "\<dots> = 2 powi (la - (lb - 1))"
      by (simp only: power_int_diff[of "2::real", simplified])
    also have "la - (lb - 1) = d + 1" by (simp add: d_def)
    finally show ?thesis .
  qed
  define T where "T = (if 0 \<le> d then b * 2 ^ nat d \<le> a else b \<le> a * 2 ^ nat (- d))"
  have T: "T \<longleftrightarrow> 2 powi d \<le> x"
  proof (cases "0 \<le> d")
    case True
    have "(b * 2 ^ nat d \<le> a) = (real_of_int (b * 2 ^ nat d) \<le> real_of_int a)"
      by (simp only: of_int_le_iff)
    also have "\<dots> = (real_of_int b * 2 ^ nat d \<le> real_of_int a)"
      by (simp only: of_int_mult of_int_power of_int_numeral)
    also have "\<dots> = (2 ^ nat d \<le> x)"
      using rb by (simp add: x_def pos_le_divide_eq mult.commute)
    finally show ?thesis using True by (simp add: T_def power_int_def)
  next
    case False
    have "(b \<le> a * 2 ^ nat (- d)) = (real_of_int b \<le> real_of_int (a * 2 ^ nat (- d)))"
      by (simp only: of_int_le_iff)
    also have "\<dots> = (real_of_int b \<le> real_of_int a * 2 ^ nat (- d))"
      by (simp only: of_int_mult of_int_power of_int_numeral)
    also have "\<dots> = (1 / 2 ^ nat (- d) \<le> x)"
      using rb by (simp add: x_def field_simps)
    finally show ?thesis using False by (simp add: T_def power_int_def field_simps)
  qed
  have e: "binary_exponent a b = (if T then d else d - 1)"
    by (simp add: binary_exponent_def Let_def T_def d_def la_def lb_def)
  show "2 powi (binary_exponent a b) \<le> real_of_int a / real_of_int b"
    using e T lo by (auto simp: x_def)
  show "real_of_int a / real_of_int b < 2 powi (binary_exponent a b + 1)"
    using e T hi by (auto simp: x_def)
qed


lemma ceil_of_scaled:
  fixes m D K :: int
  assumes "0 < D" and "(K - 1) * D < m" and "m \<le> K * D"
  shows "- ((- m) div D) = K"
proof -
  have "\<lceil>real_of_int m / real_of_int D\<rceil> = K"
  proof (rule ceiling_unique)
    have "real_of_int ((K - 1) * D) < real_of_int m" using assms(2) by (simp only: of_int_less_iff)
    then have "(real_of_int K - 1) * real_of_int D < real_of_int m" by simp
    moreover have "0 < real_of_int D" using assms(1) by simp
    ultimately show "real_of_int K - 1 < real_of_int m / real_of_int D"
      by (simp only: pos_less_divide_eq)
    have "real_of_int m \<le> real_of_int (K * D)" using assms(3) by (simp only: of_int_le_iff)
    then show "real_of_int m / real_of_int D \<le> real_of_int K"
      using assms(1) by (simp add: pos_divide_le_eq)
  qed
  then show ?thesis by (simp add: ceiling_divide_eq_div)
qed

lemma power_int_two_le_one: "e \<le> 0 \<Longrightarrow> (2::real) powi e \<le> 1"
  by (simp add: power_int_def power_le_one field_simps)

lemma ceil_true_div_exact:
  assumes s: "0 < s" and n53: "n < 2 ^ 53" and small: "n = 0 \<or> s < int n * 2 ^ 1075"
  shows "ceil_true_div n s = Inr \<lceil>real n / real_of_int s\<rceil>"
proof (cases "n = 0")
  case True
  then show ?thesis using s by (simp add: ceil_true_div_def)
next
  case False
  define a where "a = int n"
  define e where "e = binary_exponent a s"
  define k where "k = max e (- 1022) - 52"
  define D where "D = (2::int) ^ nat (- k)"
  define K where "K = \<lceil>real_of_int a / real_of_int s\<rceil>"
  define c where "c = a - (K - 1) * s"
  have a: "0 < a" "a < 2 ^ 53" using False n53 by (simp_all add: a_def)
  have small': "s < a * 2 ^ 1075" using small False by (simp add: a_def)
  have L: "2 powi e \<le> real_of_int a / real_of_int s"
    and U: "real_of_int a / real_of_int s < 2 powi (e + 1)"
    using binary_exponent_bounds[OF a(1) s] by (simp_all add: e_def)
  have D: "0 < D" by (simp add: D_def)
  \<comment> \<open>the exact ceiling\<close>
  have Kx: "real_of_int K - 1 < real_of_int a / real_of_int s"
    "real_of_int a / real_of_int s \<le> real_of_int K"
    unfolding K_def by linarith+
  have "real_of_int a \<le> real_of_int K * real_of_int s"
    using Kx(2) s by (simp add: pos_divide_le_eq)
  then have "real_of_int a \<le> real_of_int (K * s)" by simp
  then have aK: "a \<le> K * s" by (simp only: of_int_le_iff)
  have "(real_of_int K - 1) * real_of_int s < real_of_int a"
    using Kx(1) s by (simp add: pos_less_divide_eq)
  then have "real_of_int ((K - 1) * s) < real_of_int a" by simp
  then have "(K - 1) * s < a" by (simp only: of_int_less_iff)
  then have c: "1 \<le> c" by (simp add: c_def)
  have Kpos: "1 \<le> K"
  proof -
    have "0 < real_of_int a / real_of_int s" using a(1) s by simp
    then have "0 < real_of_int K" using Kx(2) by linarith
    then show ?thesis by simp
  qed
  \<comment> \<open>the last bit weighs at most one\<close>
  have e52: "e \<le> 52"
  proof (rule ccontr)
    assume "\<not> e \<le> 52"
    then have "53 \<le> e" by simp
    then have "(2::real) powi 53 \<le> 2 powi e" by (intro power_int_increasing) simp_all
    also have "\<dots> \<le> real_of_int a / real_of_int s" by (rule L)
    also have "\<dots> \<le> real_of_int a" using s a(1) by (simp add: divide_le_eq_1 field_simps mult_le_cancel_left1)
    finally have "(2::real) ^ 53 \<le> real_of_int a" by (simp add: power_int_def)
    moreover have "real_of_int a < real_of_int (2 ^ 53)" using a(2) by (simp only: of_int_less_iff)
    ultimately show False by simp
  qed
  then have k0: "k \<le> 0" by (simp add: k_def)
  \<comment> \<open>the rounding cannot reach the integer below\<close>
  have key: "s < 2 * D * c"
  proof (cases "s \<le> a")
    case True
    have e0: "0 \<le> e"
    proof (rule ccontr)
      assume "\<not> 0 \<le> e"
      then have "e + 1 \<le> 0" by simp
      then have "(2::real) powi (e + 1) \<le> 1" by (rule power_int_two_le_one)
      then have "real_of_int a / real_of_int s < 1" using U by linarith
      then have "real_of_int a < real_of_int s" using s by (simp add: pos_divide_less_eq)
      then show False using True by simp
    qed
    then have kk: "- k = 52 - e" by (simp add: k_def)
    have "real_of_int s * 2 ^ nat e \<le> real_of_int a"
      using L e0 s by (simp add: power_int_def pos_le_divide_eq mult.commute)
    then have "real_of_int (s * 2 ^ nat e) \<le> real_of_int a" by simp
    then have se: "s * 2 ^ nat e \<le> a" by (simp only: of_int_le_iff)
    define P where "P = (2::int) ^ nat e"
    have P: "0 < P" by (simp add: P_def)
    have "(2 * D) * P = 2 ^ (1 + nat (52 - e) + nat e)"
      by (simp add: D_def P_def kk power_add)
    also have "1 + nat (52 - e) + nat e = 53" using e0 e52 by simp
    finally have DP: "(2 * D) * P = 2 ^ 53" .
    have "s * P \<le> a" using se by (simp add: P_def)
    then have "s * P < (2 * D) * P" using a(2) DP by linarith
    then have "s < 2 * D" using P by (simp only: mult_less_cancel_right_pos)
    also have "2 * D \<le> 2 * D * c" using c D by simp
    finally show ?thesis .
  next
    case False
    then have as: "a < s" by simp
    have "real_of_int a / real_of_int s < 1" using as s by simp
    moreover have "0 < real_of_int a / real_of_int s" using a(1) s by simp
    ultimately have "K = 1" unfolding K_def by (intro ceiling_unique) simp_all
    then have ca: "c = a" by (simp add: c_def)
    have eneg: "e < 0"
    proof (rule ccontr)
      assume "\<not> e < 0"
      then have "0 \<le> e" by simp
      then have "(2::real) powi 0 \<le> 2 powi e" by (intro power_int_increasing) simp_all
      then have "1 \<le> real_of_int a / real_of_int s" using L by simp
      then show False using \<open>real_of_int a / real_of_int s < 1\<close> by simp
    qed
    show ?thesis
    proof (cases "- 1022 \<le> e")
      case True
      then have kk: "nat (- k) = nat (- e) + 52" using eneg by (simp add: k_def)
      have "1 / 2 ^ nat (- e) \<le> real_of_int a / real_of_int s"
        using L eneg by (simp add: power_int_def field_simps)
      then have "real_of_int s \<le> real_of_int a * 2 ^ nat (- e)"
        using s by (simp add: field_simps)
      then have "real_of_int s \<le> real_of_int (a * 2 ^ nat (- e))" by simp
      then have "s \<le> a * 2 ^ nat (- e)" by (simp only: of_int_le_iff)
      also have "\<dots> \<le> a * (2 ^ nat (- e) * 2 ^ 52)" using a(1) by simp
      also have "\<dots> = D * a" by (simp add: D_def kk power_add)
      also have "\<dots> < 2 * D * a" using a(1) D by simp
      finally show ?thesis by (simp add: ca)
    next
      case False
      then have "nat (- k) = 1074" by (simp add: k_def)
      then have "2 * D = 2 ^ 1075" by (simp add: D_def)
      then show ?thesis using small' by (simp add: ca mult.commute)
    qed
  qed
  \<comment> \<open>the mantissa\<close>
  define m where "m = round_half_even (a * D) s"
  have "a * D \<le> (K * D) * s" using aK D by (simp add: mult.assoc mult.left_commute mult_right_mono[of a "K * s" D] mult.commute)
  then have mle: "m \<le> K * D" unfolding m_def using s by (intro rhe_le)
  have "2 * ((c + (K - 1) * s) * D) = 2 * D * c + 2 * ((K - 1) * D) * s"
    by (simp add: algebra_simps)
  moreover have "c + (K - 1) * s = a" by (simp add: c_def)
  ultimately have "2 * (a * D) = 2 * D * c + 2 * ((K - 1) * D) * s" by simp
  then have "(2 * ((K - 1) * D) + 1) * s < 2 * (a * D)" using key by (simp add: algebra_simps)
  then have mgt: "(K - 1) * D < m" unfolding m_def using s by (intro rhe_gt)
  have res: "- ((- m) div D) = K" using D mgt mle by (rule ceil_of_scaled)
  have nd: "nearest_double a \<bar>s\<bar> = (m, k)"
    using k0 s by (simp add: nearest_double_def Let_def m_def D_def k_def e_def)
  have "ceil_true_div n s = Inr (- ((- m) div D))"
    using False s k0 nd by (simp add: ceil_true_div_def a_def[symmetric] D_def)
  then show ?thesis using res by (simp add: K_def a_def)
qed


text \<open>
  The page: the numbering of \<open>enumerate\<close>, the slice as the records at given offsets,
  and \<open>display_records\<close> put together.
\<close>

lemma enumerate_from_Cons:
  "enumerate_from k (x # xs) = (k, x) # enumerate_from (k + 1) xs"
proof -
  have "map (\<lambda>i. k + int i) [0..<Suc (length xs)] =
        k # map (\<lambda>i. (k + 1) + int i) [0..<length xs]"
    by (simp add: upt_conv_Cons map_Suc_upt[symmetric] comp_def algebra_simps del: upt_Suc)
  then show ?thesis by (simp add: enumerate_from_def del: upt_Suc)
qed

lemma enumerate_from_zip:
  "enumerate_from k xs = zip [k..k + int (length xs) - 1] xs"
proof (induction xs arbitrary: k)
  case Nil
  then show ?case by (simp add: enumerate_from_def)
next
  case (Cons x xs)
  have "[k..k + int (length (x # xs)) - 1] = k # [k + 1..k + 1 + int (length xs) - 1]"
    by (subst upto_rec1) simp_all
  then show ?case using Cons.IH[of "k + 1"] by (simp add: enumerate_from_Cons)
qed

lemma take_drop_nths: "take m (drop j xs) = nths xs {i. j \<le> i \<and> i < j + m}"
proof -
  have "take m (drop j xs) = nths (drop j xs) {..<m}" by simp
  also have "\<dots> = nths xs ((+) j ` {..<m})" by (rule nths_drop)
  also have "(+) j ` {..<m} = {i. j \<le> i \<and> i < j + m}"
  proof (intro set_eqI iffI)
    fix x assume "x \<in> (+) j ` {..<m}"
    then show "x \<in> {i. j \<le> i \<and> i < j + m}" by auto
  next
    fix x assume "x \<in> {i. j \<le> i \<and> i < j + m}"
    then have "x = j + (x - j)" "x - j \<in> {..<m}" by auto
    then show "x \<in> (+) j ` {..<m}" by (rule image_eqI)
  qed
  finally show ?thesis .
qed

text \<open>offsets from a to a + s, clipped to the list\<close>
lemma py_slice_clipped:
  assumes "0 < s" and "0 \<le> p \<or> int (length xs) + p * s \<le> 0"
  shows "py_slice xs ((p - 1) * s) ((p - 1) * s + s) =
         nths xs {i. (p - 1) * s \<le> int i \<and> int i < (p - 1) * s + s}"
proof (cases "1 \<le> p")
  case True
  then have a: "0 \<le> (p - 1) * s" using assms(1) by simp
  have "py_slice xs ((p - 1) * s) ((p - 1) * s + s) = take (nat s) (drop (nat ((p - 1) * s)) xs)"
    using a assms(1) by (rule py_slice_from)
  also have "\<dots> = nths xs {i. nat ((p - 1) * s) \<le> i \<and> i < nat ((p - 1) * s) + nat s}"
    by (rule take_drop_nths)
  also have "{i. nat ((p - 1) * s) \<le> i \<and> i < nat ((p - 1) * s) + nat s} =
             {i. (p - 1) * s \<le> int i \<and> int i < (p - 1) * s + s}"
    using a assms(1) by auto
  finally show ?thesis .
next
  case False
  then have p0: "p \<le> 0" by simp
  then have ps: "p * s \<le> 0" using assms(1) by (simp add: mult_le_0_iff)
  have e: "(p - 1) * s + s = p * s" by (simp add: algebra_simps)
  have "{i. (p - 1) * s \<le> int i \<and> int i < (p - 1) * s + s} = {}"
    using ps by (auto simp: e)
  then have "nths xs {i. (p - 1) * s \<le> int i \<and> int i < (p - 1) * s + s} = []"
    by (simp only: nths_empty)
  moreover have "py_slice xs ((p - 1) * s) ((p - 1) * s + s) = []"
  proof (cases "p = 0")
    case True
    then show ?thesis using assms(1) by (simp add: py_slice_def Let_def)
  next
    case False
    then have "p * s < 0" using p0 assms(1) by (simp add: mult_less_0_iff)
    moreover have "int (length xs) + p * s \<le> 0" using assms(2) False p0 by simp
    ultimately show ?thesis using assms(1) by (simp add: py_slice_def Let_def e max_def)
  qed
  ultimately show ?thesis by (simp only:)
qed

lemma display_records_general:
  assumes "0 < s"
    and "0 \<le> p \<or> int (length (records_or arg self_records)) + p * s \<le> 0"
    and "length (records_or arg self_records) < 2 ^ 53"
    and "records_or arg self_records = [] \<or>
         s < int (length (records_or arg self_records)) * 2 ^ 1075"
  shows "display_records self_records arg s p =
     \<lparr>shown =
        zip [(p - 1) * s + 1 ..
             (p - 1) * s +
               int (length (nths (records_or arg self_records)
                      {i. (p - 1) * s \<le> int i \<and> int i < (p - 1) * s + s}))]
            (nths (records_or arg self_records)
               {i. (p - 1) * s \<le> int i \<and> int i < (p - 1) * s + s}),
      footer =
        Inr (p, \<lceil>real (length (records_or arg self_records)) / real_of_int s\<rceil>)\<rparr>"
proof -
  have "ceil_true_div (length (records_or arg self_records)) s =
        Inr \<lceil>real (length (records_or arg self_records)) / real_of_int s\<rceil>"
    using assms(1,3,4) by (intro ceil_true_div_exact) simp_all
  moreover have "py_slice (records_or arg self_records) ((p - 1) * s) ((p - 1) * s + s) =
        nths (records_or arg self_records)
          {i. (p - 1) * s \<le> int i \<and> int i < (p - 1) * s + s}"
    using assms(1,2) by (rule py_slice_clipped)
  ultimately show ?thesis
    by (simp add: display_records_def Let_def enumerate_from_zip algebra_simps)
qed

lemma nths_page:
  assumes "0 < s" and "1 \<le> p"
  shows "nths xs {i. (p - 1) * s \<le> int i \<and> int i < (p - 1) * s + s} =
         take (nat s) (drop (nat ((p - 1) * s)) xs)"
proof -
  have a: "0 \<le> (p - 1) * s" using assms by simp
  have "{i. (p - 1) * s \<le> int i \<and> int i < (p - 1) * s + s} =
        {i. nat ((p - 1) * s) \<le> i \<and> i < nat ((p - 1) * s) + nat s}"
    using a assms(1) by auto
  then show ?thesis by (simp only: take_drop_nths)
qed


section \<open>The claims\<close>

subsection \<open>C1: edit and validation\<close>

text \<open>
  Claim C1: every Record satisfies its field patterns at construction and after a
  single-field replacement during edit; the replacement re-validates the new value and
  fails when it does not match, so a Record with an invalid field is never stored or
  saved. The code does not do this: \<open>edit_record\<close> stores the new value with \<open>setattr\<close>,
  which runs no validator, and saves. (Construction does validate: lemma
  \<open>Record_init_valid\<close>.) On the directory holding the valid record Sokolov, choosing
  field 2 (\<open>first_name\<close>) and entering \<open>1\<close>, a value the name validator rejects, the
  record is stored and written with \<open>first_name = 1\<close>, and the file written can no longer
  be loaded.
\<close>

theorem edit_record_stores_unvalidated_value:
  "valid_Record sokolov \<and> \<not> valid_Record (sokolov\<lparr>first_name := ustr ''1''\<rparr>) \<and>
   validate_string_fields (ustr ''1'') = Inl Invalid_data_please_enter_a_valid_data \<and>
   edit_record \<lparr>file_content = No_file, records = [sokolov]\<rparr> 0 (Some 2) (ustr ''1'') =
     Inr (\<lparr>file_content = Document (JArray [json_of_Record (sokolov\<lparr>first_name := ustr ''1''\<rparr>)]),
           records = [sokolov\<lparr>first_name := ustr ''1''\<rparr>]\<rparr>, []) \<and>
   load_records (Document (JArray [json_of_Record (sokolov\<lparr>first_name := ustr ''1''\<rparr>)])) =
     Inr ([], [Validation_error_in_the_data
                 [(ustr ''first_name'', Invalid_data_please_enter_a_valid_data)]])"
  by code_simp

subsection \<open>C2: search by field\<close>

text \<open>
  Claim C2: for every directory and every query \<open>field=value\<close> whose field is one of
  the six field names, search returns exactly the records whose field equals the value
  case-insensitively, in directory order. The code does so only when the value holds no
  \<open>=\<close> (lemma \<open>search_records_exact_field\<close>): on the query \<open>first_name=a=b\<close>, whose
  value is \<open>a=b\<close>, the claim gives the empty result (no first name is \<open>a=b\<close>), and the
  code raises \<open>ValueError\<close>.
\<close>

theorem search_records_value_with_eq_raises:
  "search_records Record_class lower_basic [sokolov] (ustr ''first_name=a=b'') = Inl ValueError"
  by code_simp

subsection \<open>C3: splitting the query\<close>

text \<open>
  Claim C3: a query that contains \<open>=\<close> is split into field name and value at the first
  \<open>=\<close>, and a query whose value contains \<open>=\<close> is still processed without failure. The
  code splits at every \<open>=\<close> and unpacks the pieces into two names: \<open>last_name=a=b\<close>
  gives three pieces, and the search raises \<open>ValueError\<close>, even on the empty directory.
\<close>

theorem search_records_splits_at_every_eq:
  "split_on 61 (ustr ''last_name=a=b'') = [ustr ''last_name'', ustr ''a'', ustr ''b''] \<and>
   search_records Record_class lower_basic [] (ustr ''last_name=a=b'') = Inl ValueError"
  by code_simp

subsection \<open>C4: the phone pattern\<close>

text \<open>
  Claim C4, as amended: phone validation is anchored at both ends. A string is accepted
  exactly when the whole string, or the whole string up to one final newline, is: an
  optional \<open>+\<close>, an optional \<open>(\<close>, three digits, an optional \<open>)\<close>, an optional
  separator, three digits, an optional separator, four to six digits. (The claim as
  stated, that a string is accepted as soon as a prefix of it matches, fails: see the
  counterexample.)
\<close>

theorem validate_phone_whole_string:
  "(validate_phone v = Inr v) =
     (\<exists>plus lparen area rparen sep1 exch sep2 sub nl.
        v = plus @ lparen @ area @ rparen @ sep1 @ exch @ sep2 @ sub @ nl \<and>
        (plus = [] \<or> plus = [43]) \<and>
        (lparen = [] \<or> lparen = [40]) \<and>
        length area = 3 \<and> list_all is_digit area \<and>
        (rparen = [] \<or> rparen = [41]) \<and>
        (sep1 = [] \<or> (\<exists>c. is_separator c \<and> sep1 = [c])) \<and>
        length exch = 3 \<and> list_all is_digit exch \<and>
        (sep2 = [] \<or> (\<exists>c. is_separator c \<and> sep2 = [c])) \<and>
        4 \<le> length sub \<and> length sub \<le> 6 \<and> list_all is_digit sub \<and>
        (nl = [] \<or> nl = [10]))"
proof (cases "re_match phone_pattern v")
  case True
  then show ?thesis using phone_pattern_iff[of v] by (simp add: validate_phone_def)
next
  case False
  then show ?thesis using phone_pattern_iff[of v] by (simp add: validate_phone_def)
qed

text \<open>
  The theorem at \<open>(495) 555.66667\<close> followed by a newline, which the validator accepts:
  the decomposition exists.
\<close>

theorem validate_phone_whole_string_witness:
  "\<exists>plus lparen area rparen sep1 exch sep2 sub nl.
        ustr ''(495) 555.66667'' @ [10] = plus @ lparen @ area @ rparen @ sep1 @ exch @ sep2 @ sub @ nl \<and>
        (plus = [] \<or> plus = [43]) \<and>
        (lparen = [] \<or> lparen = [40]) \<and>
        length area = 3 \<and> list_all is_digit area \<and>
        (rparen = [] \<or> rparen = [41]) \<and>
        (sep1 = [] \<or> (\<exists>c. is_separator c \<and> sep1 = [c])) \<and>
        length exch = 3 \<and> list_all is_digit exch \<and>
        (sep2 = [] \<or> (\<exists>c. is_separator c \<and> sep2 = [c])) \<and>
        4 \<le> length sub \<and> length sub \<le> 6 \<and> list_all is_digit sub \<and>
        (nl = [] \<or> nl = [10])"
proof -
  have "validate_phone (ustr ''(495) 555.66667'' @ [10]) = Inr (ustr ''(495) 555.66667'' @ [10])"
    by code_simp
  then show ?thesis by (rule iffD1[OF validate_phone_whole_string])
qed

text \<open>
  \<open>495-555-6666\<close> is accepted, and the same number followed by \<open>x\<close> is rejected.
\<close>

theorem validate_phone_trailing_counterexample:
  "validate_phone (ustr ''495-555-6666'') = Inr (ustr ''495-555-6666'') \<and>
   validate_phone (ustr ''495-555-6666x'') = Inl Invalid_phone_number"
  by code_simp

subsection \<open>C5: loading is all or nothing\<close>

text \<open>
  Claim C5: for every persisted file that parses and holds at least one record that
  fails validation, \<open>load_records\<close> logs the validation error and returns the empty
  directory. The code does so when the entries are objects that \<open>Record(**data)\<close>
  accepts or rejects with a \<open>ValidationError\<close> (lemma
  \<open>load_records_objects_all_or_nothing\<close>), and it catches \<open>ValidationError\<close>,
  \<open>JSONDecodeError\<close> and \<open>FileNotFoundError\<close> to that end; it does not catch the
  \<open>TypeError\<close> of \<open>Record(**data)\<close>. On the file \<open>[1, bad]\<close>, where \<open>bad\<close> is the
  record Ivanov with the work phone \<open>test\<close> in Cyrillic, the entry \<open>1\<close> is no mapping and
  \<open>load_records\<close> raises \<open>TypeError\<close>; on \<open>[bad, 1]\<close> it logs the validation error and
  returns the empty directory. An object with the key \<open>__dataclass_self__\<close> raises
  \<open>TypeError\<close> as well.
\<close>

theorem load_records_raises_TypeError:
  "load_records (Document (JArray
     [JNumber 1, json_of_Record (ivanov\<lparr>work_phone := [1090, 1077, 1089, 1090]\<rparr>)])) =
     Inl TypeError \<and>
   load_records (Document (JArray
     [json_of_Record (ivanov\<lparr>work_phone := [1090, 1077, 1089, 1090]\<rparr>), JNumber 1])) =
     Inr ([], [Validation_error_in_the_data [(ustr ''work_phone'', Invalid_phone_number)]]) \<and>
   load_records (Document (JArray
     [JObject ((ustr ''__dataclass_self__'', JNull) #
        map (\<lambda>kv. (fst kv, JString (snd kv)))
          (asdict (ivanov\<lparr>work_phone := [1090, 1077, 1089, 1090]\<rparr>)))])) =
     Inl TypeError"
  by code_simp

subsection \<open>C6: substring search\<close>

text \<open>
  Claim C6: for every directory and every query that contains no \<open>=\<close>, search returns
  exactly the records for which the lower-cased query is a substring of the lower-cased
  value of at least one of the six fields, in directory order. (The code tests the
  lower-cased query for \<open>=\<close>; that lower-casing neither adds nor removes one is a fact
  about \<open>str.lower\<close>, here the second hypothesis.)
\<close>

theorem search_records_substring:
  assumes no_eq: "61 \<notin> set query" and low: "(61 \<in> set (lower query)) = (61 \<in> set query)"
  shows "search_records cls lower D query =
     Inr (filter (\<lambda>r. occurs_in (lower query) (lower (last_name r)) \<or>
                       occurs_in (lower query) (lower (first_name r)) \<or>
                       occurs_in (lower query) (lower (middle_name r)) \<or>
                       occurs_in (lower query) (lower (organization r)) \<or>
                       occurs_in (lower query) (lower (work_phone r)) \<or>
                       occurs_in (lower query) (lower (personal_phone r))) D, [])"
  using no_eq low
  by (simp add: search_records_def search_any_filter asdict_def str_contains_occurs_in)

text \<open>
  The query \<open>andrey\<close> (in Cyrillic, lower case) on the directory of Ivanov and Sokolov
  finds Sokolov, whose first name is Andrey.
\<close>

theorem search_records_substring_witness:
  "61 \<notin> set andrey \<and> (61 \<in> set (lower_basic andrey)) = (61 \<in> set andrey) \<and>
   search_records Record_class lower_basic [ivanov, sokolov] andrey = Inr ([sokolov], [])"
proof -
  have h1: "61 \<notin> set andrey" by (simp add: andrey_def)
  have h2: "(61 \<in> set (lower_basic andrey)) = (61 \<in> set andrey)"
    by (simp add: andrey_def lower_basic_def lower_cp_def)
  have i: "\<not> list_ex (\<lambda>v. str_contains (lower_basic andrey) (lower_basic v)) (map snd (asdict ivanov))"
    by code_simp
  have s: "list_ex (\<lambda>v. str_contains (lower_basic andrey) (lower_basic v)) (map snd (asdict sokolov))"
    by code_simp
  from i s have "filter (\<lambda>r. occurs_in (lower_basic andrey) (lower_basic (last_name r)) \<or>
                       occurs_in (lower_basic andrey) (lower_basic (first_name r)) \<or>
                       occurs_in (lower_basic andrey) (lower_basic (middle_name r)) \<or>
                       occurs_in (lower_basic andrey) (lower_basic (organization r)) \<or>
                       occurs_in (lower_basic andrey) (lower_basic (work_phone r)) \<or>
                       occurs_in (lower_basic andrey) (lower_basic (personal_phone r))) [ivanov, sokolov]
        = [sokolov]"
    by (simp add: asdict_def str_contains_occurs_in)
  then show ?thesis
    using h1 h2
      search_records_substring[where query = andrey and lower = lower_basic
        and cls = Record_class and D = "[ivanov, sokolov]"]
    by simp
qed

subsection \<open>C7: unknown field\<close>

text \<open>
  Claim C7: for every directory and every query \<open>field=value\<close> whose field names none
  of the six Record fields, search reports the unknown field by a logged message and
  returns an empty sequence. The code tests \<open>hasattr(record, field)\<close>, which holds for
  every attribute of a Record object and not only for the six fields. On the directory
  holding Sokolov, the query \<open>validate_phone=x\<close> names a method of the class: it passes
  the test, and \<open>getattr(record, field).lower()\<close> raises \<open>AttributeError\<close>. The query
  \<open>first_nam=x\<close>, which names no attribute, is reported as the claim says.
\<close>

theorem search_records_method_name_raises:
  "search_records Record_class lower_basic [sokolov] (ustr ''validate_phone=x'') =
     Inl AttributeError \<and>
   search_records Record_class lower_basic [sokolov] (ustr ''first_nam=x'') =
     Inr ([], [Field_does_not_exist (ustr ''first_nam'')])"
  by code_simp

subsection \<open>C8: save, then load\<close>

text \<open>
  Claim C8: for every directory of valid records, saving it and loading the file back
  gives the same records, in the same order, with all six fields.
\<close>

theorem save_then_load:
  assumes "list_all valid_Record (records pd)"
  shows "load_records (file_content (save_records pd)) = Inr (records pd, [])"
  using assms by (simp add: load_records_def save_records_def build_records_valid)

text \<open>Sokolov and Ivanov are valid; saved and loaded, they come back in this order.\<close>

theorem save_then_load_witness:
  "list_all valid_Record [sokolov, ivanov] \<and>
   load_records (file_content (save_records \<lparr>file_content = No_file, records = [sokolov, ivanov]\<rparr>))
     = Inr ([sokolov, ivanov], [])"
proof -
  have v: "list_all valid_Record (records \<lparr>file_content = No_file, records = [sokolov, ivanov]\<rparr>)"
    by code_simp
  show ?thesis using v save_then_load[OF v] by simp
qed

subsection \<open>C9: pages\<close>




subsection \<open>C10: an empty list falls back to the directory\<close>

text \<open>
  Claim C10: when \<open>display_records\<close> is called with an empty list, it does not show
  an empty page: the empty list is replaced by the directory's own records, which are
  paginated and whose length gives the total number of pages. The call equals the call
  without a list and the call with the directory's own list; for \<open>s > 0\<close> and \<open>p \<ge> 1\<close>
  the page is the next \<open>s\<close> records of the directory after the first \<open>(p-1)*s\<close>,
  numbered from \<open>(p-1)*s+1\<close>, and the total is the ceiling of the directory's length
  over \<open>s\<close> (for a length below \<open>2^53\<close> and \<open>s\<close> below the length times \<open>2^1075\<close>,
  where the float quotient has the exact ceiling); and page 1 of a directory that is not
  empty is not empty.
\<close>

theorem display_records_empty_list:
  "display_records self_records (Some []) s p = display_records self_records None s p \<and>
   display_records self_records (Some []) s p =
     display_records self_records (Some self_records) s p \<and>
   (0 < s \<and> 1 \<le> p \<and> length self_records < 2 ^ 53 \<and>
    (self_records = [] \<or> s < int (length self_records) * 2 ^ 1075) \<longrightarrow>
      display_records self_records (Some []) s p =
        \<lparr>shown =
           zip [(p - 1) * s + 1 ..
                (p - 1) * s +
                  int (length (take (nat s) (drop (nat ((p - 1) * s)) self_records)))]
               (take (nat s) (drop (nat ((p - 1) * s)) self_records)),
         footer = Inr (p, \<lceil>real (length self_records) / real_of_int s\<rceil>)\<rparr>) \<and>
   (0 < s \<and> self_records \<noteq> [] \<longrightarrow>
      shown (display_records self_records (Some []) s 1) =
        zip [1 .. int (length (take (nat s) self_records))] (take (nat s) self_records) \<and>
      shown (display_records self_records (Some []) s 1) \<noteq> [])"
proof (intro conjI impI)
  have ro: "records_or (Some []) self_records = self_records"
    by (simp add: records_or_def)
  show "display_records self_records (Some []) s p = display_records self_records None s p"
    by (simp add: display_records_def records_or_def)
  show "display_records self_records (Some []) s p =
     display_records self_records (Some self_records) s p"
    by (simp add: display_records_def records_or_def)
  show "display_records self_records (Some []) s p =
        \<lparr>shown =
           zip [(p - 1) * s + 1 ..
                (p - 1) * s +
                  int (length (take (nat s) (drop (nat ((p - 1) * s)) self_records)))]
               (take (nat s) (drop (nat ((p - 1) * s)) self_records)),
         footer = Inr (p, \<lceil>real (length self_records) / real_of_int s\<rceil>)\<rparr>"
    if h: "0 < s \<and> 1 \<le> p \<and> length self_records < 2 ^ 53 \<and>
        (self_records = [] \<or> s < int (length self_records) * 2 ^ 1075)"
  proof -
    have "display_records self_records (Some []) s p =
      \<lparr>shown =
        zip [(p - 1) * s + 1 ..
             (p - 1) * s +
               int (length (nths (records_or (Some []) self_records)
                      {i. (p - 1) * s \<le> int i \<and> int i < (p - 1) * s + s}))]
            (nths (records_or (Some []) self_records)
               {i. (p - 1) * s \<le> int i \<and> int i < (p - 1) * s + s}),
       footer =
        Inr (p, \<lceil>real (length (records_or (Some []) self_records)) / real_of_int s\<rceil>)\<rparr>"
      using h by (intro display_records_general) (simp_all add: ro)
    moreover have "nths self_records {i. (p - 1) * s \<le> int i \<and> int i < (p - 1) * s + s} =
        take (nat s) (drop (nat ((p - 1) * s)) self_records)"
      using h by (intro nths_page) simp_all
    ultimately show ?thesis by (simp add: ro)
  qed
  have first: "shown (display_records self_records (Some []) s 1) =
        zip [1 .. int (length (take (nat s) self_records))] (take (nat s) self_records)"
    if h: "0 < s \<and> self_records \<noteq> []"
  proof -
    have "py_slice self_records 0 (0 + s) = take (nat s) (drop (nat 0) self_records)"
      using h by (intro py_slice_from) simp_all
    then show ?thesis
      by (simp add: display_records_def Let_def ro enumerate_from_zip)
  qed
  show "shown (display_records self_records (Some []) s 1) =
        zip [1 .. int (length (take (nat s) self_records))] (take (nat s) self_records)"
    if "0 < s \<and> self_records \<noteq> []"
    using that by (rule first)
  show "shown (display_records self_records (Some []) s 1) \<noteq> []"
    if h: "0 < s \<and> self_records \<noteq> []"
  proof -
    obtain x xs where xs: "self_records = x # xs" using h by (cases self_records) auto
    obtain j where j: "nat s = Suc j" using h by (cases "nat s") auto
    have "take (nat s) self_records = x # take j xs" by (simp add: xs j)
    moreover have "[1 .. int (length (x # take j xs))] = 1 # [2 .. int (length (x # take j xs))]"
      by (subst upto_rec1) simp_all
    ultimately show ?thesis using first[OF h] by simp
  qed
qed

text \<open>
  The directory of Sokolov and Ivanov, shown with an empty list passed: both records on
  page 1 of size 5, and Sokolov alone on page 1 of size 1.
\<close>

theorem display_records_empty_list_witness:
  "display_records [sokolov, ivanov] (Some []) 5 1 =
     \<lparr>shown = [(1, sokolov), (2, ivanov)], footer = Inr (1, 1)\<rparr> \<and>
   display_records [sokolov, ivanov] None 5 1 =
     \<lparr>shown = [(1, sokolov), (2, ivanov)], footer = Inr (1, 1)\<rparr> \<and>
   shown (display_records [sokolov, ivanov] (Some []) 1 1) = [(1, sokolov)]"
proof -
  have z: "zip [1..2] [sokolov, ivanov] = [(1, sokolov), (2, ivanov)]" by code_simp
  have z1: "zip [1..1] [sokolov] = [(1, sokolov)]" by code_simp
  have c: "\<lceil>real 2 / real_of_int 5\<rceil> = 1" by simp
  note five = display_records_empty_list[of "[sokolov, ivanov]" 5 1]
  note one = display_records_empty_list[of "[sokolov, ivanov]" 1 1]
  have b: "display_records [sokolov, ivanov] (Some []) 5 1 =
     \<lparr>shown = [(1, sokolov), (2, ivanov)], footer = Inr (1, 1)\<rparr>"
    using five[THEN conjunct2, THEN conjunct2, THEN conjunct1] z c by simp
  have a: "display_records [sokolov, ivanov] None 5 1 =
     \<lparr>shown = [(1, sokolov), (2, ivanov)], footer = Inr (1, 1)\<rparr>"
    using five[THEN conjunct1] b by (simp only:)
  have d: "shown (display_records [sokolov, ivanov] (Some []) 1 1) = [(1, sokolov)]"
    using one[THEN conjunct2, THEN conjunct2, THEN conjunct2] z1 by simp
  show ?thesis using a b d by (intro conjI)
qed

end
